theory Spec2Isabelle
  imports Complex_Main "HOL-Library.Sublist"
begin

section \<open>The flat-run segmenter \<open>find_breaks\<close> of the JWST engineering-data notebook\<close>

text \<open>
  The function takes two pandas DataFrames with the columns \<open>euvalue\<close>, \<open>MJD\<close> and
  \<open>theTime\<close>. A DataFrame is modelled as the list of its rows, so that the three columns
  of one frame have the same length by construction. The readings are floating-point
  numbers in the source; the model takes them as real numbers, which agrees with the
  source on every finite reading (\<open>np.abs(a - b) == 0\<close> holds exactly when \<open>a == b\<close>).
  Python integers are \<open>int\<close>.
\<close>

record edb =
  euvalue :: real
  MJD :: real
  theTime :: string

text \<open>
  A row of the combined frame \<open>xy_frame\<close>: its index label and the four columns
  \<open>MJD\<close>, \<open>timestamp\<close>, \<open>x_value\<close>, \<open>y_value\<close>. The first column is called \<open>xy_MJD\<close>
  here, since \<open>MJD\<close> already names the column of the input frames. A cell that pandas
  fills with NaN is \<open>None\<close>.
\<close>

record xy =
  idx :: nat
  xy_MJD :: "real option"
  timestamp :: "string option"
  x_value :: "real option"
  y_value :: "real option"

datatype error = ValueError | NameError

text \<open>
  The state of the scan: the local variables \<open>results\<close>, \<open>m\<close>, \<open>flat\<close> and
  \<open>recording\<close> of the source.
\<close>

record scan =
  results :: "xy list list"
  m :: int
  flat :: int
  recording :: bool

subsection \<open>Building \<open>xy_frame\<close>\<close>

text \<open>
  \<^verbatim>\<open>
  xy_frame = pd.DataFrame(data=x_dates, columns=['MJD'])
  xy_frame['timestamp'] = x_data['theTime'].values
  xy_frame['x_value'] = x_vals
  xy_frame['y_value'] = y_vals
  \<close>
  The first three columns all come from \<open>x_data\<close> and have its length. Assigning the
  array \<open>y_vals\<close> as a column goes through pandas' \<open>DataFrame._sanitize_column\<close>:
  \<^item> when the frame has no rows and the array is not empty, \<open>_ensure_valid_index\<close>
    gives the frame the index of the array, filling the existing columns with NaN;
  \<^item> then \<open>require_length_match\<close> raises \<open>ValueError\<close> when the length of the array
    differs from the length of the index.
\<close>

definition xy_frame_of :: "edb list \<Rightarrow> edb list \<Rightarrow> error + xy list" where
  "xy_frame_of x_data y_data =
     (if x_data = [] then
        Inr (map (\<lambda>i. \<lparr>idx = i, xy_MJD = None, timestamp = None, x_value = None,
                         y_value = Some (euvalue (y_data ! i))\<rparr>) [0..<length y_data])
      else if length y_data \<noteq> length x_data then Inl ValueError
      else
        Inr (map (\<lambda>i. \<lparr>idx = i, xy_MJD = Some (MJD (x_data ! i)),
                         timestamp = Some (theTime (x_data ! i)),
                         x_value = Some (euvalue (x_data ! i)),
                         y_value = Some (euvalue (y_data ! i))\<rparr>) [0..<length x_data]))"

subsection \<open>Slicing\<close>

text \<open>
  \<open>xy_frame[a:b]\<close> with integer bounds slices by position, with Python's rules: a
  negative bound counts from the end, and every bound is clamped to the frame.
\<close>

definition slice_bound :: "nat \<Rightarrow> int \<Rightarrow> nat" where
  "slice_bound len i = (if i < 0 then nat (max 0 (int len + i)) else min (nat i) len)"

definition slice :: "'a list \<Rightarrow> int \<Rightarrow> int \<Rightarrow> 'a list" where
  "slice xs a b =
     (let lo = slice_bound (length xs) a; hi = slice_bound (length xs) b
      in take (hi - lo) (drop lo xs))"

definition slice_from :: "'a list \<Rightarrow> int \<Rightarrow> 'a list" where
  "slice_from xs a = drop (slice_bound (length xs) a) xs"

subsection \<open>The scan\<close>

text \<open>
  One iteration of \<open>for n in range(1, len(x_vals))\<close>. The loop only runs after
  \<open>xy_frame\<close> was built with \<open>x_data\<close> not empty, so both series have the same length
  and \<open>n - 1\<close> and \<open>n\<close> are valid positions of all four arrays.
\<close>

definition step ::
  "real list \<Rightarrow> real list \<Rightarrow> real list \<Rightarrow> real list \<Rightarrow> xy list \<Rightarrow> int \<Rightarrow> scan \<Rightarrow> int \<Rightarrow> scan"
where
  "step x_vals x_dates y_vals y_dates xy_frame max_flats s n =
     (if x_dates ! nat n = y_dates ! nat n then
        (let x_diff = \<bar>x_vals ! nat (n - 1) - x_vals ! nat n\<bar>;
             y_diff = \<bar>y_vals ! nat (n - 1) - y_vals ! nat n\<bar>
         in if x_diff = 0 \<and> y_diff = 0 then
              (let s1 = s\<lparr>flat := flat s + 1\<rparr>
               in if \<not> recording s1 then s1
                  else if flat s1 \<ge> max_flats then
                    (let sz = (n - max_flats) - m s1;
                         s2 = (if sz > 1
                               then s1\<lparr>results := results s1 @ [slice xy_frame (m s1) (n - max_flats)]\<rparr>
                               else s1)
                     in s2\<lparr>recording := False\<rparr>)
                  else s1)
            else if (x_diff > 0 \<or> y_diff > 0) \<and> \<not> recording s then
              s\<lparr>flat := 0, m := n, recording := True\<rparr>
            else s)
      else s)"

definition init :: scan where
  "init = \<lparr>results = [], m = 0, flat = 0, recording = True\<rparr>"

text \<open>\<open>range(a, b)\<close> of Python, as the list of its values.\<close>

definition range_py :: "int \<Rightarrow> int \<Rightarrow> int list" where
  "range_py a b = [a..b - 1]"

text \<open>
  The whole function; the \<open>print\<close> of the number of segments before the return is
  left out. After the loop, \<open>recording and (n - m) > 1\<close> reads the loop
  variable \<open>n\<close>: it holds the last value of the range, and it is unbound when the range
  was empty, where reading it raises \<open>UnboundLocalError\<close>, a \<open>NameError\<close>.
\<close>

definition find_breaks :: "edb list \<Rightarrow> edb list \<Rightarrow> int \<Rightarrow> error + xy list list" where
  "find_breaks x_data y_data max_flats =
     (let x_vals = map euvalue x_data;
          x_dates = map MJD x_data;
          y_vals = map euvalue y_data;
          y_dates = map MJD y_data
      in case xy_frame_of x_data y_data of
           Inl e \<Rightarrow> Inl e
         | Inr xy_frame \<Rightarrow>
            (let ns = range_py 1 (int (length x_vals));
                 s = foldl (step x_vals x_dates y_vals y_dates xy_frame max_flats) init ns
             in if recording s then
                  (if ns = [] then Inl NameError
                   else if last ns - m s > 1
                        then Inr (results s @ [slice_from xy_frame (m s)])
                        else Inr (results s))
                else Inr (results s)))"

text \<open>The frame the scan works on, when building it did not raise.\<close>

definition built_frame :: "edb list \<Rightarrow> edb list \<Rightarrow> xy list" where
  "built_frame x_data y_data =
     (case xy_frame_of x_data y_data of Inr xy_frame \<Rightarrow> xy_frame | Inl e \<Rightarrow> [])"

text \<open>
  The state of the loop after the iterations \<open>n = 1, \<dots>, k\<close>, and the two tests the
  loop body makes at an index: the \<open>MJD\<close> values agree, and neither reading changed
  since the sample before.
\<close>

definition loop :: "edb list \<Rightarrow> edb list \<Rightarrow> xy list \<Rightarrow> int \<Rightarrow> nat \<Rightarrow> scan" where
  "loop x_data y_data xy_frame max_flats k =
     foldl (step (map euvalue x_data) (map MJD x_data) (map euvalue y_data) (map MJD y_data)
                 xy_frame max_flats)
           init (range_py 1 (int (Suc k)))"

definition aligned_at :: "edb list \<Rightarrow> edb list \<Rightarrow> nat \<Rightarrow> bool" where
  "aligned_at x_data y_data n = (MJD (x_data ! n) = MJD (y_data ! n))"

definition flat_at :: "edb list \<Rightarrow> edb list \<Rightarrow> nat \<Rightarrow> bool" where
  "flat_at x_data y_data n =
     (euvalue (x_data ! (n - 1)) = euvalue (x_data ! n) \<and>
      euvalue (y_data ! (n - 1)) = euvalue (y_data ! n))"

subsection \<open>Index ranges\<close>

text \<open>
  The notions used to state where the returned segments lie. The rows of a frame at
  the positions \<open>a, \<dots>, b - 1\<close>:
\<close>

definition rows :: "'a list \<Rightarrow> nat \<times> nat \<Rightarrow> 'a list" where
  "rows xs = (\<lambda>(a, b). take (b - a) (drop a xs))"

text \<open>
  A list of ranges \<open>[a, b)\<close> that lie between \<open>lo\<close> and \<open>hi\<close>, none of them empty,
  each starting at or after the end of the one before.
\<close>

fun range_chain :: "nat \<Rightarrow> (nat \<times> nat) list \<Rightarrow> nat \<Rightarrow> bool" where
  "range_chain lo [] hi = (lo \<le> hi)"
| "range_chain lo ((a, b) # bs) hi = (lo \<le> a \<and> a < b \<and> range_chain b bs hi)"

text \<open>The indices covered by a list of ranges.\<close>

definition cov :: "(nat \<times> nat) list \<Rightarrow> nat set" where
  "cov bs = (\<Union>(a, b)\<in>set bs. {a..<b})"

subsection \<open>Indices outside the returned segments\<close>

text \<open>
  The scan stops recording at the index \<open>n\<close>: it was recording after the iteration
  before and is not after this one. The span that ends there started at the value
  \<open>m\<close> had before, and its rows below \<open>n - max_flats\<close> are stored when they are more
  than one.
\<close>

definition closes_at :: "edb list \<Rightarrow> edb list \<Rightarrow> xy list \<Rightarrow> int \<Rightarrow> nat \<Rightarrow> bool" where
  "closes_at x_data y_data xy_frame max_flats n =
     (0 < n \<and> recording (loop x_data y_data xy_frame max_flats (n - 1)) \<and>
      \<not> recording (loop x_data y_data xy_frame max_flats n))"

text \<open>
  The three places where an index can lie outside every returned segment.
  First, recording is stopped after the index, and there both readings are unchanged or
  the dates differ.
\<close>

definition stopped_at :: "edb list \<Rightarrow> edb list \<Rightarrow> xy list \<Rightarrow> int \<Rightarrow> nat \<Rightarrow> bool" where
  "stopped_at x_data y_data xy_frame max_flats i =
     (\<not> recording (loop x_data y_data xy_frame max_flats i) \<and>
      (flat_at x_data y_data i \<or> \<not> aligned_at x_data y_data i))"

text \<open>
  Second, the index lies in a span that is closed at a later index \<open>n\<close>, and either it
  is one of the last \<open>max_flats\<close> samples before \<open>n\<close>, which the stored slice leaves out,
  or the slice has at most one row and is not stored.
\<close>

definition in_closed_tail :: "edb list \<Rightarrow> edb list \<Rightarrow> xy list \<Rightarrow> int \<Rightarrow> nat \<Rightarrow> bool" where
  "in_closed_tail x_data y_data xy_frame max_flats i =
     list_ex (\<lambda>n. closes_at x_data y_data xy_frame max_flats n \<and>
                  m (loop x_data y_data xy_frame max_flats (n - 1)) \<le> int i \<and>
                  (int n - max_flats - m (loop x_data y_data xy_frame max_flats (n - 1)) \<le> 1 \<or>
                   int n - max_flats \<le> int i))
             [Suc i..<length x_data]"

text \<open>
  Third, the index is the last one, and recording started again there: a final span of
  one sample, which is not stored.
\<close>

definition trailing_single :: "edb list \<Rightarrow> edb list \<Rightarrow> xy list \<Rightarrow> int \<Rightarrow> nat \<Rightarrow> bool" where
  "trailing_single x_data y_data xy_frame max_flats i =
     (Suc i = length x_data \<and>
      recording (loop x_data y_data xy_frame max_flats i) \<and>
      m (loop x_data y_data xy_frame max_flats i) = int i)"

text \<open>
  The index lies in a span of exactly two samples that is still being recorded when the
  loop ends: the last index minus \<open>m\<close> is 1.
\<close>

definition trailing_pair :: "edb list \<Rightarrow> edb list \<Rightarrow> xy list \<Rightarrow> int \<Rightarrow> nat \<Rightarrow> bool" where
  "trailing_pair x_data y_data xy_frame max_flats i =
     (recording (loop x_data y_data xy_frame max_flats (length x_data - 1)) \<and>
      int (length x_data - 1) - m (loop x_data y_data xy_frame max_flats (length x_data - 1)) = 1 \<and>
      m (loop x_data y_data xy_frame max_flats (length x_data - 1)) \<le> int i)"

text \<open>
  Below \<open>hi\<close>, every index outside the ranges is in the first or the second of these
  places.
\<close>

definition settled ::
  "edb list \<Rightarrow> edb list \<Rightarrow> xy list \<Rightarrow> int \<Rightarrow> (nat \<times> nat) list \<Rightarrow> nat \<Rightarrow> bool"
where
  "settled x_data y_data xy_frame max_flats bs hi =
     (\<forall>i<hi. i \<notin> cov bs \<longrightarrow>
        stopped_at x_data y_data xy_frame max_flats i \<or>
        in_closed_tail x_data y_data xy_frame max_flats i)"

text \<open>
  The invariant of the loop after the iteration \<open>n = k\<close>: the stored segments are the
  rows of a chain of ranges. While recording, the ranges end before \<open>m\<close> (before
  \<open>m - 1\<close>, when \<open>m > 0\<close>) and the indices below \<open>m\<close> are settled; otherwise the ranges
  end at or before \<open>k\<close> and the indices up to \<open>k\<close> are settled.
\<close>

definition scan_inv :: "edb list \<Rightarrow> edb list \<Rightarrow> xy list \<Rightarrow> int \<Rightarrow> nat \<Rightarrow> bool" where
  "scan_inv x_data y_data xy_frame max_flats k =
     (0 \<le> m (loop x_data y_data xy_frame max_flats k) \<and>
      m (loop x_data y_data xy_frame max_flats k) \<le> int k \<and>
      (\<exists>bs. results (loop x_data y_data xy_frame max_flats k) = map (rows xy_frame) bs \<and>
            range_chain 0 bs
              (if recording (loop x_data y_data xy_frame max_flats k)
               then nat (m (loop x_data y_data xy_frame max_flats k)) - 1 else k) \<and>
            settled x_data y_data xy_frame max_flats bs
              (if recording (loop x_data y_data xy_frame max_flats k)
               then nat (m (loop x_data y_data xy_frame max_flats k)) else Suc k)))"

subsection \<open>Example inputs\<close>

text \<open>
  A series of readings sampled at the dates \<open>0, 1, 2, \<dots>\<close>: two such series of the
  same length are aligned at every index.
\<close>

definition series :: "real list \<Rightarrow> edb list" where
  "series vs = map (\<lambda>i. \<lparr>euvalue = vs ! i, MJD = real i, theTime = []\<rparr>) [0..<length vs]"

section \<open>The loop, one iteration at a time\<close>

text \<open>The values of \<open>range(1, k + 1)\<close>, as natural numbers.\<close>

lemma range_py_upt: "range_py 1 (int (Suc k)) = map int [1..<Suc k]"
proof (induction k)
  case 0
  show ?case by (simp add: range_py_def)
next
  case (Suc k)
  have "[1..int (Suc k)] = [1..int (Suc k) - 1] @ [int (Suc k)]"
    by (rule upto_rec2) simp
  moreover have "int (Suc (Suc k)) - 1 = int (Suc k)"
    by simp
  ultimately have "range_py 1 (int (Suc (Suc k))) = range_py 1 (int (Suc k)) @ [int (Suc k)]"
    unfolding range_py_def by (simp only:)
  with Suc.IH show ?case
    by (simp del: of_nat_Suc)
qed

text \<open>The state before the first iteration, and the state after one more iteration.\<close>

lemma loop_0: "loop x_data y_data xy_frame max_flats 0 = init"
  unfolding loop_def range_py_upt by simp

lemma loop_Suc:
  "loop x_data y_data xy_frame max_flats (Suc k) =
     step (map euvalue x_data) (map MJD x_data) (map euvalue y_data) (map MJD y_data)
          xy_frame max_flats (loop x_data y_data xy_frame max_flats k) (int (Suc k))"
  unfolding loop_def range_py_upt by (simp del: of_nat_Suc)


lemma nat_pred_Suc: "nat (int (Suc k) - 1) = k"
  by simp

text \<open>
  The three kinds of iteration at an index inside both series: the dates differ; the
  dates agree and a reading changed; the dates agree and both readings are unchanged.
\<close>

lemma step_skip:
  assumes "Suc k < length x_data" "length y_data = length x_data"
    and "\<not> aligned_at x_data y_data (Suc k)"
  shows "loop x_data y_data xy_frame max_flats (Suc k) = loop x_data y_data xy_frame max_flats k"
  using assms by (simp add: loop_Suc step_def aligned_at_def del: of_nat_Suc)

lemma step_change:
  assumes "Suc k < length x_data" "length y_data = length x_data"
    and "aligned_at x_data y_data (Suc k)" "\<not> flat_at x_data y_data (Suc k)"
  shows "loop x_data y_data xy_frame max_flats (Suc k) =
     (let s = loop x_data y_data xy_frame max_flats k
      in if recording s then s else s\<lparr>flat := 0, m := int (Suc k), recording := True\<rparr>)"
  using assms
  by (auto simp add: loop_Suc step_def aligned_at_def flat_at_def Let_def nat_pred_Suc
           simp del: of_nat_Suc)

lemma step_flat:
  assumes "Suc k < length x_data" "length y_data = length x_data"
    and "aligned_at x_data y_data (Suc k)" "flat_at x_data y_data (Suc k)"
  shows "loop x_data y_data xy_frame max_flats (Suc k) =
     (let s = loop x_data y_data xy_frame max_flats k
      in if \<not> recording s then s\<lparr>flat := flat s + 1\<rparr>
         else if max_flats \<le> flat s + 1 then
           (if 1 < int (Suc k) - max_flats - m s
            then s\<lparr>flat := flat s + 1,
                   results := results s @ [slice xy_frame (m s) (int (Suc k) - max_flats)],
                   recording := False\<rparr>
            else s\<lparr>flat := flat s + 1, recording := False\<rparr>)
         else s\<lparr>flat := flat s + 1\<rparr>)"
  using assms
  by (auto simp add: loop_Suc step_def aligned_at_def flat_at_def Let_def nat_pred_Suc
           simp del: of_nat_Suc)

text \<open>The function on two series of the same length with at least two samples.\<close>

lemma find_breaks_loop:
  assumes "length y_data = length x_data" "2 \<le> length x_data"
    and "xy_frame_of x_data y_data = Inr xy_frame"
  shows "find_breaks x_data y_data max_flats =
     (let s = loop x_data y_data xy_frame max_flats (length x_data - 1)
      in if recording s \<and> int (length x_data - 1) - m s > 1
         then Inr (results s @ [slice_from xy_frame (m s)])
         else Inr (results s))"
proof -
  define k where "k = length x_data - 2"
  have k: "length x_data = Suc (Suc k)"
    using assms(2) unfolding k_def by arith
  have ns: "range_py 1 (int (length (map euvalue x_data))) = range_py 1 (int (Suc (Suc k)))"
    using k by simp
  have ne: "range_py 1 (int (Suc (Suc k))) \<noteq> []"
    and la: "last (range_py 1 (int (Suc (Suc k)))) = int (Suc k)"
    unfolding range_py_upt by (simp_all del: of_nat_Suc)
  have k1: "length x_data - 1 = Suc k"
    using k by simp
  show ?thesis
    unfolding find_breaks_def Let_def assms(3) ns k1
    using ne la
    by (simp add: loop_def del: of_nat_Suc)
qed


section \<open>Properties\<close>

subsection \<open>Misaligned samples\<close>

text \<open>
  Claim C9. At an index \<open>n\<close> where the \<open>MJD\<close> values of the two series differ, the
  iteration changes nothing: \<open>results\<close>, \<open>m\<close>, \<open>flat\<close> and \<open>recording\<close> keep their
  values, so no segment is stored at that index.
\<close>

theorem step_misaligned:
  "x_dates ! nat n \<noteq> y_dates ! nat n \<Longrightarrow>
     step x_vals x_dates y_vals y_dates xy_frame max_flats s n = s"
  by (simp add: step_def)

theorem step_misaligned_witness:
  "[0, 1 :: real] ! nat 1 \<noteq> [0, 2 :: real] ! nat 1 \<and>
   step [5, 5] [0, 1] [7, 7] [0, 2] [] 1 init 1 = init"
  using step_misaligned [of "[0, 1]" 1 "[0, 2]" "[5, 5]" "[7, 7]" "[]" 1 init]
  by simp

subsection \<open>Errors\<close>

text \<open>
  Claim C6. With fewer than two samples (both series empty, or one sample each) the
  loop body never runs, \<open>recording\<close> is still true, and the test after the loop reads
  the unbound variable \<open>n\<close>: the function raises \<open>NameError\<close> instead of returning an
  empty list.
\<close>

theorem find_breaks_short:
  "length x_data < 2 \<Longrightarrow> length y_data = length x_data \<Longrightarrow>
     find_breaks x_data y_data max_flats = Inl NameError"
  by (simp add: find_breaks_def xy_frame_of_def range_py_def init_def Let_def)

theorem find_breaks_short_witness:
  "length (series [3]) < 2 \<and> length (series [4]) = length (series [3]) \<and>
   find_breaks (series [3]) (series [4]) 5 = Inl NameError"
  using find_breaks_short [of "series [3]" "series [4]" 5]
  by (simp add: series_def)

text \<open>
  Claim C5, as stated, fails: the function never looks at the sign of \<open>max_flats\<close>.
  With \<open>max_flats = 0\<close> and three changing samples it returns the whole series as one
  segment.
\<close>

theorem max_flats_zero_counterexample:
  "find_breaks (series [0, 1, 2]) (series [0, 1, 2]) 0 =
     Inr [[\<lparr>idx = 0, xy_MJD = Some 0, timestamp = Some [], x_value = Some 0, y_value = Some 0\<rparr>,
           \<lparr>idx = 1, xy_MJD = Some 1, timestamp = Some [], x_value = Some 1, y_value = Some 1\<rparr>,
           \<lparr>idx = 2, xy_MJD = Some 2, timestamp = Some [], x_value = Some 2, y_value = Some 2\<rparr>]]"
  by code_simp

text \<open>
  Claim C5, amended. A call with \<open>max_flats < 1\<close> is not rejected: on two series of
  the same length with at least two samples the scan runs to its end and the function
  returns a list of segments.
\<close>

theorem find_breaks_unchecked_max_flats:
  "max_flats < 1 \<Longrightarrow> length y_data = length x_data \<Longrightarrow> 2 \<le> length x_data \<Longrightarrow>
     \<exists>segs. find_breaks x_data y_data max_flats = Inr segs"
  by (auto simp add: find_breaks_def xy_frame_of_def range_py_def Let_def)

theorem find_breaks_unchecked_max_flats_witness:
  "(0::int) < 1 \<and> length (series [0, 1, 2]) = length (series [0, 1, 2]) \<and>
   2 \<le> length (series [0, 1, 2]) \<and>
   (\<exists>segs. find_breaks (series [0, 1, 2]) (series [0, 1, 2]) 0 = Inr segs)"
  using find_breaks_unchecked_max_flats [of 0 "series [0, 1, 2]" "series [0, 1, 2]"]
  by (simp add: series_def)

text \<open>
  Claim C7, as stated, fails when the x series is empty and the y series is not: pandas
  gives the empty frame the index of \<open>y_vals\<close> instead of raising, the loop does not
  run, and the function raises \<open>NameError\<close>, not an invalid-argument error.
\<close>

theorem unequal_empty_x_counterexample:
  "length ([] :: edb list) \<noteq> length (series [1]) \<and>
   find_breaks [] (series [1]) 5 = Inl NameError"
  by code_simp

text \<open>
  Claim C7, amended. When the x series is not empty and the y series has another
  length, building \<open>xy_frame\<close> raises \<open>ValueError\<close>: the scan never starts and no
  segment is produced.
\<close>

theorem find_breaks_unequal:
  "x_data \<noteq> [] \<Longrightarrow> length x_data \<noteq> length y_data \<Longrightarrow>
     find_breaks x_data y_data max_flats = Inl ValueError"
  by (simp add: find_breaks_def xy_frame_of_def)

theorem find_breaks_unequal_witness:
  "series [1, 2, 3] \<noteq> [] \<and> length (series [1, 2, 3]) \<noteq> length (series [1, 2]) \<and>
   find_breaks (series [1, 2, 3]) (series [1, 2]) 5 = Inl ValueError"
  using find_breaks_unequal [of "series [1, 2, 3]" "series [1, 2]" 5]
  by (simp add: series_def)

subsection \<open>Inputs that never change\<close>

text \<open>
  Two series of the same length, the first not empty, give a frame whose rows carry
  the index labels \<open>0, 1, \<dots>\<close> in order.
\<close>

lemma xy_frame_of_equal:
  "x_data \<noteq> [] \<Longrightarrow> length y_data = length x_data \<Longrightarrow>
     \<exists>xy_frame. xy_frame_of x_data y_data = Inr xy_frame \<and>
        map idx xy_frame = [0..<length x_data]"
  by (simp add: xy_frame_of_def comp_def map_idI)

text \<open>
  On an aligned input whose readings never change, the counter \<open>flat\<close> equals the
  index, nothing is stored, and recording stops at the index \<open>max_flats\<close>.
\<close>

lemma all_flat_loop:
  assumes len: "length y_data = length x_data"
    and run: "\<forall>n. 1 \<le> n \<and> n < length x_data \<longrightarrow>
                aligned_at x_data y_data n \<and> flat_at x_data y_data n"
    and pos: "1 \<le> max_flats"
    and k: "k < length x_data"
  shows "loop x_data y_data xy_frame max_flats k =
           \<lparr>results = [], m = 0, flat = int k, recording = (int k < max_flats)\<rparr>"
  using k
proof (induction k)
  case 0
  show ?case using pos by (simp add: loop_0 init_def)
next
  case (Suc k)
  then have IH: "loop x_data y_data xy_frame max_flats k =
           \<lparr>results = [], m = 0, flat = int k, recording = (int k < max_flats)\<rparr>"
    by simp
  have "aligned_at x_data y_data (Suc k)" "flat_at x_data y_data (Suc k)"
    using run Suc.prems by simp_all
  then show ?case
    using step_flat[OF Suc.prems len, of xy_frame max_flats] IH
    by (auto simp add: Let_def)
qed

text \<open>
  Claim C1, amended. For two aligned series of the same length in which no reading ever
  changes, and a threshold \<open>max_flats \<ge> 1\<close> smaller than the number of samples,
  \<open>find_breaks\<close> returns the empty list.
\<close>

theorem find_breaks_all_flat:
  assumes len: "length y_data = length x_data"
    and run: "\<forall>n. 1 \<le> n \<and> n < length x_data \<longrightarrow>
                aligned_at x_data y_data n \<and> flat_at x_data y_data n"
    and mf: "1 \<le> max_flats" "max_flats < int (length x_data)"
  shows "find_breaks x_data y_data max_flats = Inr []"
proof -
  have two: "2 \<le> length x_data"
    using mf by linarith
  then have "x_data \<noteq> []" by auto
  then obtain xy_frame where fr: "xy_frame_of x_data y_data = Inr xy_frame"
    using xy_frame_of_equal[OF _ len] by blast
  have "length x_data - 1 < length x_data"
    using two by simp
  from all_flat_loop[OF len run mf(1) this]
  have "\<not> recording (loop x_data y_data xy_frame max_flats (length x_data - 1))"
    and "results (loop x_data y_data xy_frame max_flats (length x_data - 1)) = []"
    using mf two by simp_all
  then show ?thesis
    by (simp add: find_breaks_loop[OF len two fr] Let_def)
qed

theorem find_breaks_all_flat_witness:
  "length (series [1, 1, 1]) = length (series [5, 5, 5]) \<and>
   aligned_at (series [5, 5, 5]) (series [1, 1, 1]) 1 \<and>
   flat_at (series [5, 5, 5]) (series [1, 1, 1]) 1 \<and>
   aligned_at (series [5, 5, 5]) (series [1, 1, 1]) 2 \<and>
   flat_at (series [5, 5, 5]) (series [1, 1, 1]) 2 \<and>
   (1::int) \<le> 2 \<and> (2::int) < int (length (series [5, 5, 5])) \<and>
   find_breaks (series [5, 5, 5]) (series [1, 1, 1]) 2 = Inr []"
proof -
  have len: "length (series [1, 1, 1]) = length (series [5, 5, 5])"
    by (simp add: series_def)
  have run: "\<forall>n. 1 \<le> n \<and> n < length (series [5, 5, 5]) \<longrightarrow>
      aligned_at (series [5, 5, 5]) (series [1, 1, 1]) n \<and>
      flat_at (series [5, 5, 5]) (series [1, 1, 1]) n"
    by (auto simp add: series_def aligned_at_def flat_at_def nth_Cons split: nat.splits)
  have mf: "(1::int) \<le> 2" "(2::int) < int (length (series [5, 5, 5]))"
    by (simp_all add: series_def)
  show ?thesis
    using find_breaks_all_flat[OF len run mf]
    by (simp add: series_def aligned_at_def flat_at_def)
qed

text \<open>
  Claim C1, as stated, fails when the input is too short for the counter to reach the
  threshold: three unchanged samples with \<open>max_flats = 5\<close> are still being recorded
  when the loop ends, and the whole series is returned as one segment.
\<close>

theorem all_flat_short_counterexample:
  "find_breaks (series [5, 5, 5]) (series [1, 1, 1]) 5 =
     Inr [[\<lparr>idx = 0, xy_MJD = Some 0, timestamp = Some [], x_value = Some 5, y_value = Some 1\<rparr>,
           \<lparr>idx = 1, xy_MJD = Some 1, timestamp = Some [], x_value = Some 5, y_value = Some 1\<rparr>,
           \<lparr>idx = 2, xy_MJD = Some 2, timestamp = Some [], x_value = Some 5, y_value = Some 1\<rparr>]]"
  by code_simp

subsection \<open>Inputs that always change, and the test after the loop\<close>

text \<open>
  On an aligned input in which some reading changes at every index, the state never
  leaves its initial value.
\<close>

lemma all_changing_loop:
  assumes len: "length y_data = length x_data"
    and run: "\<forall>n. 1 \<le> n \<and> n < length x_data \<longrightarrow>
                aligned_at x_data y_data n \<and> \<not> flat_at x_data y_data n"
    and k: "k < length x_data"
  shows "loop x_data y_data xy_frame max_flats k = init"
  using k
proof (induction k)
  case 0
  show ?case by (rule loop_0)
next
  case (Suc k)
  then have IH: "loop x_data y_data xy_frame max_flats k = init"
    by simp
  have "aligned_at x_data y_data (Suc k)" "\<not> flat_at x_data y_data (Suc k)"
    using run Suc.prems by simp_all
  then show ?case
    using step_change[OF Suc.prems len, of xy_frame max_flats] IH
    by (simp add: Let_def init_def)
qed

text \<open>
  With at least three samples such an input is returned whole, as one segment, whatever
  the threshold.
\<close>

lemma find_breaks_all_changing:
  assumes len: "length y_data = length x_data"
    and run: "\<forall>n. 1 \<le> n \<and> n < length x_data \<longrightarrow>
                aligned_at x_data y_data n \<and> \<not> flat_at x_data y_data n"
    and three: "3 \<le> length x_data"
    and fr: "xy_frame_of x_data y_data = Inr xy_frame"
  shows "find_breaks x_data y_data max_flats = Inr [xy_frame]"
proof -
  have two: "2 \<le> length x_data"
    using three by simp
  have "length x_data - 1 < length x_data"
    using two by simp
  from all_changing_loop[OF len run this]
  have "loop x_data y_data xy_frame max_flats (length x_data - 1) = init" .
  then show ?thesis
    using three
    by (simp add: find_breaks_loop[OF len two fr] Let_def init_def slice_from_def slice_bound_def)
qed

text \<open>
  Claim C4 at two samples. The in-loop test \<open>size > 1\<close> keeps a segment of two rows,
  but the test after the loop compares \<open>n - m\<close>, the last index minus the start, with
  1: the span of two changing samples has \<open>n - m = 1\<close> and is dropped.
\<close>

theorem two_changing_samples_dropped:
  "length (series [0, 1]) = 2 \<and>
   aligned_at (series [0, 1]) (series [0, 1]) 1 \<and>
   \<not> flat_at (series [0, 1]) (series [0, 1]) 1 \<and>
   find_breaks (series [0, 1]) (series [0, 1]) 5 = Inr []"
  by code_simp

text \<open>
  Claim C3 at a trailing span of two samples. With \<open>max_flats = 2\<close> the series
  \<open>0, 1, 2, 2, 2, 3, 4\<close> stores the rows 0 and 1 at index 4 and starts recording again
  at index 5. The loop ends while recording with \<open>m = 5\<close>: the final span has the two
  rows 5 and 6, and it is not stored.
\<close>

theorem trailing_pair_dropped:
  "recording (loop (series [0, 1, 2, 2, 2, 3, 4]) (series [0, 1, 2, 2, 2, 3, 4]) (built_frame (series [0, 1, 2, 2, 2, 3, 4]) (series [0, 1, 2, 2, 2, 3, 4])) 2 6) \<and>
   m (loop (series [0, 1, 2, 2, 2, 3, 4]) (series [0, 1, 2, 2, 2, 3, 4]) (built_frame (series [0, 1, 2, 2, 2, 3, 4]) (series [0, 1, 2, 2, 2, 3, 4])) 2 6) = 5 \<and>
   int (length (series [0, 1, 2, 2, 2, 3, 4])) - m (loop (series [0, 1, 2, 2, 2, 3, 4]) (series [0, 1, 2, 2, 2, 3, 4]) (built_frame (series [0, 1, 2, 2, 2, 3, 4]) (series [0, 1, 2, 2, 2, 3, 4])) 2 6) = 2 \<and>
   map_sum id (map (map idx)) (find_breaks (series [0, 1, 2, 2, 2, 3, 4]) (series [0, 1, 2, 2, 2, 3, 4]) 2) = Inr [[0, 1]]"
  by code_simp

subsection \<open>Runs of unchanged samples\<close>

text \<open>
  Claim C2, as stated, fails: \<open>flat\<close> is only reset when recording starts again, so
  unchanged samples seen earlier in the same segment count towards the threshold. With
  \<open>max_flats = 3\<close>, the series \<open>0, 1, 1, 2, 2, 2, 3, 4, 5\<close> has one unchanged sample at
  index 2 and a run of exactly two at the indices 4 and 5; the scan is recording after
  index 3 and has stopped recording after index 5.
\<close>

theorem early_flat_counterexample:
  "recording (loop (series [0, 1, 1, 2, 2, 2, 3, 4, 5]) (series [0, 1, 1, 2, 2, 2, 3, 4, 5]) (built_frame (series [0, 1, 1, 2, 2, 2, 3, 4, 5]) (series [0, 1, 1, 2, 2, 2, 3, 4, 5])) 3 3) \<and>
   \<not> flat_at (series [0, 1, 1, 2, 2, 2, 3, 4, 5]) (series [0, 1, 1, 2, 2, 2, 3, 4, 5]) 3 \<and> flat_at (series [0, 1, 1, 2, 2, 2, 3, 4, 5]) (series [0, 1, 1, 2, 2, 2, 3, 4, 5]) 4 \<and> flat_at (series [0, 1, 1, 2, 2, 2, 3, 4, 5]) (series [0, 1, 1, 2, 2, 2, 3, 4, 5]) 5 \<and> \<not> flat_at (series [0, 1, 1, 2, 2, 2, 3, 4, 5]) (series [0, 1, 1, 2, 2, 2, 3, 4, 5]) 6 \<and>
   aligned_at (series [0, 1, 1, 2, 2, 2, 3, 4, 5]) (series [0, 1, 1, 2, 2, 2, 3, 4, 5]) 4 \<and> aligned_at (series [0, 1, 1, 2, 2, 2, 3, 4, 5]) (series [0, 1, 1, 2, 2, 2, 3, 4, 5]) 5 \<and>
   \<not> recording (loop (series [0, 1, 1, 2, 2, 2, 3, 4, 5]) (series [0, 1, 1, 2, 2, 2, 3, 4, 5]) (built_frame (series [0, 1, 1, 2, 2, 2, 3, 4, 5]) (series [0, 1, 1, 2, 2, 2, 3, 4, 5])) 3 5) \<and>
   map_sum id (map (map idx)) (find_breaks (series [0, 1, 1, 2, 2, 2, 3, 4, 5]) (series [0, 1, 1, 2, 2, 2, 3, 4, 5]) 3) = Inr [[0, 1], [6, 7, 8]]"
  by code_simp

text \<open>The counter \<open>flat\<close> is never negative.\<close>

lemma flat_nonneg:
  assumes len: "length y_data = length x_data" and k: "k < length x_data"
  shows "0 \<le> flat (loop x_data y_data xy_frame max_flats k)"
  using k
proof (induction k)
  case 0
  show ?case by (simp add: loop_0 init_def)
next
  case (Suc k)
  then have IH: "0 \<le> flat (loop x_data y_data xy_frame max_flats k)"
    by simp
  show ?case
  proof (cases "aligned_at x_data y_data (Suc k)")
    case False
    then show ?thesis
      using step_skip[OF Suc.prems len] IH by simp
  next
    case True
    show ?thesis
    proof (cases "flat_at x_data y_data (Suc k)")
      case True
      with \<open>aligned_at x_data y_data (Suc k)\<close> show ?thesis
        using step_flat[OF Suc.prems len, of xy_frame max_flats] IH
        by (simp add: Let_def)
    next
      case False
      with \<open>aligned_at x_data y_data (Suc k)\<close> show ?thesis
        using step_change[OF Suc.prems len, of xy_frame max_flats] IH
        by (simp add: Let_def)
    qed
  qed
qed

text \<open>
  A run of unchanged aligned samples that does not lift the counter to the threshold
  only increments the counter.
\<close>

lemma flat_run_keeps:
  assumes len: "length y_data = length x_data"
    and rec: "recording (loop x_data y_data xy_frame max_flats k)"
    and run: "\<forall>n. k < n \<and> n \<le> k + j \<longrightarrow>
                n < length x_data \<and> aligned_at x_data y_data n \<and> flat_at x_data y_data n"
    and below: "flat (loop x_data y_data xy_frame max_flats k) + int j < max_flats"
  shows "loop x_data y_data xy_frame max_flats (k + j) =
           (loop x_data y_data xy_frame max_flats k)
             \<lparr>flat := flat (loop x_data y_data xy_frame max_flats k) + int j\<rparr>"
  using run below
proof (induction j)
  case 0
  show ?case by simp
next
  case (Suc j)
  have IH: "loop x_data y_data xy_frame max_flats (k + j) =
           (loop x_data y_data xy_frame max_flats k)
             \<lparr>flat := flat (loop x_data y_data xy_frame max_flats k) + int j\<rparr>"
    using Suc by simp
  have here: "Suc (k + j) < length x_data" "aligned_at x_data y_data (Suc (k + j))"
    "flat_at x_data y_data (Suc (k + j))"
    using Suc.prems(1) by simp_all
  show ?case
    using step_flat[OF here(1) len here(2,3), of xy_frame max_flats] IH rec Suc.prems(2)
    by (simp add: Let_def)
qed

text \<open>
  During a run of unchanged aligned samples the scan either has stopped recording, or
  the counter has grown by the length of the run and is still below the threshold.
\<close>

lemma flat_run_closes:
  assumes len: "length y_data = length x_data"
    and run: "\<forall>n. k < n \<and> n \<le> k + j \<longrightarrow>
                n < length x_data \<and> aligned_at x_data y_data n \<and> flat_at x_data y_data n"
  shows "\<not> recording (loop x_data y_data xy_frame max_flats (k + j)) \<or>
         flat (loop x_data y_data xy_frame max_flats (k + j)) =
           flat (loop x_data y_data xy_frame max_flats k) + int j \<and>
         (j = 0 \<or> flat (loop x_data y_data xy_frame max_flats (k + j)) < max_flats)"
  using run
proof (induction j)
  case 0
  show ?case by simp
next
  case (Suc j)
  have IH: "\<not> recording (loop x_data y_data xy_frame max_flats (k + j)) \<or>
         flat (loop x_data y_data xy_frame max_flats (k + j)) =
           flat (loop x_data y_data xy_frame max_flats k) + int j \<and>
         (j = 0 \<or> flat (loop x_data y_data xy_frame max_flats (k + j)) < max_flats)"
    by (rule Suc.IH) (use Suc.prems in auto)
  have here: "Suc (k + j) < length x_data" "aligned_at x_data y_data (Suc (k + j))"
    "flat_at x_data y_data (Suc (k + j))"
    using Suc.prems(1) by simp_all
  show ?case
    using step_flat[OF here(1) len here(2,3), of xy_frame max_flats] IH
    by (auto simp add: Let_def)
qed

text \<open>
  Claim C2, amended. Let the scan be recording after the index \<open>k\<close>, with
  \<open>max_flats \<ge> 1\<close>. If \<open>flat\<close> is 0 there (no unchanged sample was counted since
  recording started), a run of \<open>max_flats - 1\<close> unchanged aligned samples after \<open>k\<close>
  leaves the scan recording and stores nothing. A run of \<open>max_flats\<close> unchanged aligned
  samples after \<open>k\<close> always ends with recording stopped, whatever \<open>flat\<close> was.
\<close>

theorem flat_run_boundary:
  assumes len: "length y_data = length x_data"
    and mf: "1 \<le> max_flats"
    and k: "k < length x_data"
    and rec: "recording (loop x_data y_data xy_frame max_flats k)"
  shows "(flat (loop x_data y_data xy_frame max_flats k) = 0 \<and>
          (\<forall>n. k < n \<and> n \<le> k + nat (max_flats - 1) \<longrightarrow>
             n < length x_data \<and> aligned_at x_data y_data n \<and> flat_at x_data y_data n)
          \<longrightarrow> recording (loop x_data y_data xy_frame max_flats (k + nat (max_flats - 1))) \<and>
              results (loop x_data y_data xy_frame max_flats (k + nat (max_flats - 1))) =
              results (loop x_data y_data xy_frame max_flats k)) \<and>
         ((\<forall>n. k < n \<and> n \<le> k + nat max_flats \<longrightarrow>
             n < length x_data \<and> aligned_at x_data y_data n \<and> flat_at x_data y_data n)
          \<longrightarrow> \<not> recording (loop x_data y_data xy_frame max_flats (k + nat max_flats)))"
proof (intro conjI impI)
  assume a: "flat (loop x_data y_data xy_frame max_flats k) = 0 \<and>
          (\<forall>n. k < n \<and> n \<le> k + nat (max_flats - 1) \<longrightarrow>
             n < length x_data \<and> aligned_at x_data y_data n \<and> flat_at x_data y_data n)"
  then have below: "flat (loop x_data y_data xy_frame max_flats k) + int (nat (max_flats - 1)) < max_flats"
    using mf by simp
  from a have run: "\<forall>n. k < n \<and> n \<le> k + nat (max_flats - 1) \<longrightarrow>
             n < length x_data \<and> aligned_at x_data y_data n \<and> flat_at x_data y_data n"
    by blast
  note eq = flat_run_keeps[OF len rec run below]
  show "recording (loop x_data y_data xy_frame max_flats (k + nat (max_flats - 1)))"
    using rec by (simp add: eq)
  show "results (loop x_data y_data xy_frame max_flats (k + nat (max_flats - 1))) =
        results (loop x_data y_data xy_frame max_flats k)"
    by (simp add: eq)
next
  assume run: "\<forall>n. k < n \<and> n \<le> k + nat max_flats \<longrightarrow>
             n < length x_data \<and> aligned_at x_data y_data n \<and> flat_at x_data y_data n"
  have "0 \<le> flat (loop x_data y_data xy_frame max_flats k)"
    by (rule flat_nonneg[OF len k])
  then show "\<not> recording (loop x_data y_data xy_frame max_flats (k + nat max_flats))"
    using flat_run_closes[OF len run, of xy_frame max_flats] mf
    by auto
qed

theorem flat_run_boundary_witness:
  "length (series [0, 1, 1, 1]) = length (series [0, 1, 1, 1]) \<and> (1::int) \<le> 2 \<and> 1 < length (series [0, 1, 1, 1]) \<and>
   recording (loop (series [0, 1, 1, 1]) (series [0, 1, 1, 1]) (built_frame (series [0, 1, 1, 1]) (series [0, 1, 1, 1])) 2 1) \<and>
   flat (loop (series [0, 1, 1, 1]) (series [0, 1, 1, 1]) (built_frame (series [0, 1, 1, 1]) (series [0, 1, 1, 1])) 2 1) = 0 \<and>
   aligned_at (series [0, 1, 1, 1]) (series [0, 1, 1, 1]) 2 \<and> flat_at (series [0, 1, 1, 1]) (series [0, 1, 1, 1]) 2 \<and> aligned_at (series [0, 1, 1, 1]) (series [0, 1, 1, 1]) 3 \<and> flat_at (series [0, 1, 1, 1]) (series [0, 1, 1, 1]) 3 \<and>
   recording (loop (series [0, 1, 1, 1]) (series [0, 1, 1, 1]) (built_frame (series [0, 1, 1, 1]) (series [0, 1, 1, 1])) 2 2) \<and>
   results (loop (series [0, 1, 1, 1]) (series [0, 1, 1, 1]) (built_frame (series [0, 1, 1, 1]) (series [0, 1, 1, 1])) 2 2) = results (loop (series [0, 1, 1, 1]) (series [0, 1, 1, 1]) (built_frame (series [0, 1, 1, 1]) (series [0, 1, 1, 1])) 2 1) \<and>
   \<not> recording (loop (series [0, 1, 1, 1]) (series [0, 1, 1, 1]) (built_frame (series [0, 1, 1, 1]) (series [0, 1, 1, 1])) 2 3)"
proof -
  have facts: "1 < length (series [0, 1, 1, 1])"
    "recording (loop (series [0, 1, 1, 1]) (series [0, 1, 1, 1]) (built_frame (series [0, 1, 1, 1]) (series [0, 1, 1, 1])) 2 1)"
    "flat (loop (series [0, 1, 1, 1]) (series [0, 1, 1, 1]) (built_frame (series [0, 1, 1, 1]) (series [0, 1, 1, 1])) 2 1) = 0"
    "aligned_at (series [0, 1, 1, 1]) (series [0, 1, 1, 1]) 2" "flat_at (series [0, 1, 1, 1]) (series [0, 1, 1, 1]) 2" "aligned_at (series [0, 1, 1, 1]) (series [0, 1, 1, 1]) 3" "flat_at (series [0, 1, 1, 1]) (series [0, 1, 1, 1]) 3"
    by code_simp+
  have mf: "(1::int) \<le> 2"
    by simp
  have short: "\<forall>n. 1 < n \<and> n \<le> 1 + nat (2 - 1) \<longrightarrow>
      n < length (series [0, 1, 1, 1]) \<and> aligned_at (series [0, 1, 1, 1]) (series [0, 1, 1, 1]) n \<and> flat_at (series [0, 1, 1, 1]) (series [0, 1, 1, 1]) n"
  proof (intro allI impI)
    fix n :: nat
    assume "1 < n \<and> n \<le> 1 + nat (2 - 1)"
    then have "n = 2" by simp
    then show "n < length (series [0, 1, 1, 1]) \<and> aligned_at (series [0, 1, 1, 1]) (series [0, 1, 1, 1]) n \<and> flat_at (series [0, 1, 1, 1]) (series [0, 1, 1, 1]) n"
      using facts by (simp add: series_def)
  qed
  have long: "\<forall>n. 1 < n \<and> n \<le> 1 + nat 2 \<longrightarrow>
      n < length (series [0, 1, 1, 1]) \<and> aligned_at (series [0, 1, 1, 1]) (series [0, 1, 1, 1]) n \<and> flat_at (series [0, 1, 1, 1]) (series [0, 1, 1, 1]) n"
  proof (intro allI impI)
    fix n :: nat
    assume "1 < n \<and> n \<le> 1 + nat 2"
    then have "n = 2 \<or> n = 3" by auto
    then show "n < length (series [0, 1, 1, 1]) \<and> aligned_at (series [0, 1, 1, 1]) (series [0, 1, 1, 1]) n \<and> flat_at (series [0, 1, 1, 1]) (series [0, 1, 1, 1]) n"
      using facts by (auto simp add: series_def)
  qed
  show ?thesis
    using flat_run_boundary[OF refl mf facts(1,2)] facts short long
    by (simp add: numeral_2_eq_2 numeral_3_eq_3)
qed

subsection \<open>Where the returned segments lie\<close>

text \<open>Chains of ranges.\<close>

lemma range_chain_le: "range_chain lo bs hi \<Longrightarrow> lo \<le> hi"
  by (induction lo bs hi rule: range_chain.induct) auto

lemma range_chain_widen: "range_chain lo bs hi \<Longrightarrow> hi \<le> hi' \<Longrightarrow> range_chain lo bs hi'"
  by (induction lo bs hi rule: range_chain.induct) auto

lemma range_chain_snoc:
  "range_chain lo bs hi \<Longrightarrow> hi \<le> a \<Longrightarrow> a < b \<Longrightarrow> b \<le> hi' \<Longrightarrow> range_chain lo (bs @ [(a, b)]) hi'"
  by (induction lo bs hi rule: range_chain.induct) auto

lemma take_drop_split:
  assumes "lo \<le> a" "a \<le> hi"
  shows "take (hi - lo) (drop lo xs) = take (a - lo) (drop lo xs) @ take (hi - a) (drop a xs)"
proof -
  have "hi - lo = (a - lo) + (hi - a)"
    using assms by simp
  moreover have "drop (a - lo) (drop lo xs) = drop a xs"
    using assms by simp
  ultimately show ?thesis
    by (simp only: take_add)
qed

lemma range_chain_subseq:
  "range_chain lo bs hi \<Longrightarrow> subseq (concat (map (rows xs) bs)) (take (hi - lo) (drop lo xs))"
proof (induction lo bs hi rule: range_chain.induct)
  case (1 lo hi)
  show ?case by simp
next
  case (2 lo a b bs hi)
  then have ord: "lo \<le> a" "a < b" and rest: "range_chain b bs hi"
    by simp_all
  have "b \<le> hi"
    using rest by (rule range_chain_le)
  have IH: "subseq (concat (map (rows xs) bs)) (take (hi - b) (drop b xs))"
    using 2 by simp
  have split: "take (hi - lo) (drop lo xs) =
      take (a - lo) (drop lo xs) @ (take (b - a) (drop a xs) @ take (hi - b) (drop b xs))"
    using take_drop_split[of lo a hi xs] take_drop_split[of a b hi xs] ord \<open>b \<le> hi\<close>
    by simp
  have "subseq (take (b - a) (drop a xs) @ concat (map (rows xs) bs))
               (take (b - a) (drop a xs) @ take (hi - b) (drop b xs))"
    using IH by (simp add: subseq_append')
  then show ?case
    unfolding split by (simp add: rows_def subseq_drop_many)
qed

lemma rows_idx:
  assumes "map idx xs = [0..<length xs]" "a \<le> b" "b \<le> length xs"
  shows "map idx (rows xs (a, b)) = [a..<b]"
proof -
  have "map idx (rows xs (a, b)) = take (b - a) (drop a (map idx xs))"
    by (simp add: rows_def take_map drop_map)
  also have "\<dots> = [a..<b]"
    using assms by simp
  finally show ?thesis .
qed

lemma slice_rows:
  assumes "0 \<le> a" "a \<le> b" "b \<le> int (length xs)"
  shows "slice xs a b = rows xs (nat a, nat b)"
  using assms by (simp add: slice_def slice_bound_def rows_def Let_def min_def)

lemma slice_from_rows:
  assumes "0 \<le> a" "a \<le> int (length xs)"
  shows "slice_from xs a = rows xs (nat a, length xs)"
proof -
  have "nat a \<le> length xs"
    using assms by linarith
  then show ?thesis
    using assms by (simp add: slice_from_def slice_bound_def rows_def min_def)
qed

text \<open>Covered indices.\<close>

lemma cov_snoc: "cov (bs @ [(a, b)]) = cov bs \<union> {a..<b}"
  by (auto simp add: cov_def)

lemma range_chain_cov: "range_chain lo bs hi \<Longrightarrow> cov bs \<subseteq> {lo..<hi}"
proof (induction lo bs hi rule: range_chain.induct)
  case (1 lo hi)
  show ?case by (simp add: cov_def)
next
  case (2 lo a b bs hi)
  then have "cov bs \<subseteq> {b..<hi}" "lo \<le> a" "a < b" "b \<le> hi"
    using range_chain_le[of b bs hi] by simp_all
  then show ?case
    by (auto simp add: cov_def)
qed

text \<open>Settled indices.\<close>

lemma in_closed_tailI:
  assumes "i < n" "n < length x_data" "closes_at x_data y_data xy_frame max_flats n"
    and "m (loop x_data y_data xy_frame max_flats (n - 1)) \<le> int i"
    and "int n - max_flats - m (loop x_data y_data xy_frame max_flats (n - 1)) \<le> 1 \<or>
         int n - max_flats \<le> int i"
  shows "in_closed_tail x_data y_data xy_frame max_flats i"
proof -
  have "n \<in> set [Suc i..<length x_data]"
    using assms(1,2) by simp
  then show ?thesis
    unfolding in_closed_tail_def list_ex_iff using assms(3,4,5) by blast
qed

lemma settled_snoc:
  assumes "settled x_data y_data xy_frame max_flats bs hi"
  shows "settled x_data y_data xy_frame max_flats (bs @ [(a, b)]) hi"
  using assms unfolding settled_def by (simp add: cov_snoc)

lemma settled_extend:
  assumes "settled x_data y_data xy_frame max_flats bs hi"
    and "\<forall>i. hi \<le> i \<and> i < hi' \<and> i \<notin> cov bs \<longrightarrow>
           stopped_at x_data y_data xy_frame max_flats i \<or>
           in_closed_tail x_data y_data xy_frame max_flats i"
  shows "settled x_data y_data xy_frame max_flats bs hi'"
  unfolding settled_def
proof (intro allI impI)
  fix i assume i: "i < hi'" "i \<notin> cov bs"
  show "stopped_at x_data y_data xy_frame max_flats i \<or>
        in_closed_tail x_data y_data xy_frame max_flats i"
  proof (cases "i < hi")
    case True
    with assms(1) i(2) show ?thesis unfolding settled_def by blast
  next
    case False
    with assms(2) i show ?thesis by simp
  qed
qed

text \<open>The invariant holds at the start and is kept by every kind of iteration.\<close>

lemma scan_invI:
  assumes "0 \<le> m (loop x_data y_data xy_frame max_flats k)"
    and "m (loop x_data y_data xy_frame max_flats k) \<le> int k"
    and "results (loop x_data y_data xy_frame max_flats k) = map (rows xy_frame) bs"
    and "range_chain 0 bs
              (if recording (loop x_data y_data xy_frame max_flats k)
               then nat (m (loop x_data y_data xy_frame max_flats k)) - 1 else k)"
    and "settled x_data y_data xy_frame max_flats bs
              (if recording (loop x_data y_data xy_frame max_flats k)
               then nat (m (loop x_data y_data xy_frame max_flats k)) else Suc k)"
  shows "scan_inv x_data y_data xy_frame max_flats k"
  unfolding scan_inv_def using assms by blast

lemma scan_invE:
  assumes "scan_inv x_data y_data xy_frame max_flats k"
  obtains bs where "0 \<le> m (loop x_data y_data xy_frame max_flats k)"
    and "m (loop x_data y_data xy_frame max_flats k) \<le> int k"
    and "results (loop x_data y_data xy_frame max_flats k) = map (rows xy_frame) bs"
    and "range_chain 0 bs
              (if recording (loop x_data y_data xy_frame max_flats k)
               then nat (m (loop x_data y_data xy_frame max_flats k)) - 1 else k)"
    and "settled x_data y_data xy_frame max_flats bs
              (if recording (loop x_data y_data xy_frame max_flats k)
               then nat (m (loop x_data y_data xy_frame max_flats k)) else Suc k)"
  using assms unfolding scan_inv_def by blast

lemma scan_inv_init: "scan_inv x_data y_data xy_frame max_flats 0"
  by (rule scan_invI[where bs = "[]"]) (simp_all add: loop_0 init_def settled_def)

lemma scan_inv_keep:
  assumes inv: "scan_inv x_data y_data xy_frame max_flats k"
    and rec: "recording (loop x_data y_data xy_frame max_flats k)"
      "recording (loop x_data y_data xy_frame max_flats (Suc k))"
    and same: "m (loop x_data y_data xy_frame max_flats (Suc k)) =
               m (loop x_data y_data xy_frame max_flats k)"
      "results (loop x_data y_data xy_frame max_flats (Suc k)) =
       results (loop x_data y_data xy_frame max_flats k)"
  shows "scan_inv x_data y_data xy_frame max_flats (Suc k)"
proof -
  from inv obtain bs where bs: "0 \<le> m (loop x_data y_data xy_frame max_flats k)"
    "m (loop x_data y_data xy_frame max_flats k) \<le> int k"
    "results (loop x_data y_data xy_frame max_flats k) = map (rows xy_frame) bs"
    "range_chain 0 bs (nat (m (loop x_data y_data xy_frame max_flats k)) - 1)"
    "settled x_data y_data xy_frame max_flats bs
       (nat (m (loop x_data y_data xy_frame max_flats k)))"
    using rec(1) by (auto elim: scan_invE)
  show ?thesis
    using bs rec(2) same by (intro scan_invI[where bs = bs]) simp_all
qed

lemma scan_inv_stopped:
  assumes inv: "scan_inv x_data y_data xy_frame max_flats k"
    and rec: "\<not> recording (loop x_data y_data xy_frame max_flats k)"
      "\<not> recording (loop x_data y_data xy_frame max_flats (Suc k))"
    and same: "m (loop x_data y_data xy_frame max_flats (Suc k)) =
               m (loop x_data y_data xy_frame max_flats k)"
      "results (loop x_data y_data xy_frame max_flats (Suc k)) =
       results (loop x_data y_data xy_frame max_flats k)"
    and here: "flat_at x_data y_data (Suc k) \<or> \<not> aligned_at x_data y_data (Suc k)"
  shows "scan_inv x_data y_data xy_frame max_flats (Suc k)"
proof -
  from inv obtain bs where bs: "0 \<le> m (loop x_data y_data xy_frame max_flats k)"
    "m (loop x_data y_data xy_frame max_flats k) \<le> int k"
    "results (loop x_data y_data xy_frame max_flats k) = map (rows xy_frame) bs"
    "range_chain 0 bs k"
    "settled x_data y_data xy_frame max_flats bs (Suc k)"
    using rec(1) by (auto elim: scan_invE)
  have "stopped_at x_data y_data xy_frame max_flats (Suc k)"
    unfolding stopped_at_def using rec(2) here by simp
  then have "\<forall>i. Suc k \<le> i \<and> i < Suc (Suc k) \<and> i \<notin> cov bs \<longrightarrow>
           stopped_at x_data y_data xy_frame max_flats i \<or>
           in_closed_tail x_data y_data xy_frame max_flats i"
    by (auto simp add: less_Suc_eq_le le_antisym)
  then have "settled x_data y_data xy_frame max_flats bs (Suc (Suc k))"
    by (rule settled_extend[OF bs(5)])
  moreover have "range_chain 0 bs (Suc k)"
    using range_chain_widen[OF bs(4)] by simp
  ultimately show ?thesis
    using bs(1,2,3) rec(2) same by (intro scan_invI[where bs = bs]) simp_all
qed

lemma scan_inv_restart:
  assumes inv: "scan_inv x_data y_data xy_frame max_flats k"
    and rec: "\<not> recording (loop x_data y_data xy_frame max_flats k)"
      "recording (loop x_data y_data xy_frame max_flats (Suc k))"
    and new: "m (loop x_data y_data xy_frame max_flats (Suc k)) = int (Suc k)"
      "results (loop x_data y_data xy_frame max_flats (Suc k)) =
       results (loop x_data y_data xy_frame max_flats k)"
  shows "scan_inv x_data y_data xy_frame max_flats (Suc k)"
proof -
  from inv obtain bs where bs:
    "results (loop x_data y_data xy_frame max_flats k) = map (rows xy_frame) bs"
    "range_chain 0 bs k"
    "settled x_data y_data xy_frame max_flats bs (Suc k)"
    using rec(1) by (auto elim: scan_invE)
  have "nat (int (Suc k)) = Suc k" "nat (int (Suc k)) - 1 = k"
    by simp_all
  then show ?thesis
    using bs rec(2) new by (intro scan_invI[where bs = bs]) (simp_all del: of_nat_Suc)
qed

lemma scan_inv_close:
  assumes inv: "scan_inv x_data y_data xy_frame max_flats k"
    and rec: "recording (loop x_data y_data xy_frame max_flats k)"
      "\<not> recording (loop x_data y_data xy_frame max_flats (Suc k))"
    and same: "m (loop x_data y_data xy_frame max_flats (Suc k)) =
               m (loop x_data y_data xy_frame max_flats k)"
    and res: "results (loop x_data y_data xy_frame max_flats (Suc k)) =
       (if 1 < int (Suc k) - max_flats - m (loop x_data y_data xy_frame max_flats k)
        then results (loop x_data y_data xy_frame max_flats k) @
               [slice xy_frame (m (loop x_data y_data xy_frame max_flats k))
                      (int (Suc k) - max_flats)]
        else results (loop x_data y_data xy_frame max_flats k))"
    and here: "flat_at x_data y_data (Suc k)"
    and mf: "1 \<le> max_flats"
    and k: "Suc k < length x_data" "Suc k < length xy_frame"
  shows "scan_inv x_data y_data xy_frame max_flats (Suc k)"
proof -
  define s where "s = loop x_data y_data xy_frame max_flats k"
  from inv obtain bs where bs: "0 \<le> m s" "m s \<le> int k"
    "results s = map (rows xy_frame) bs"
    "range_chain 0 bs (nat (m s) - 1)"
    "settled x_data y_data xy_frame max_flats bs (nat (m s))"
    using rec(1) unfolding s_def by (auto elim: scan_invE)
  define a where "a = nat (m s)"
  define b where "b = nat (int (Suc k) - max_flats)"
  define bs' where "bs' = (if 1 < int (Suc k) - max_flats - m s then bs @ [(a, b)] else bs)"
  have closes: "closes_at x_data y_data xy_frame max_flats (Suc k)"
    unfolding closes_at_def using rec by simp
  have old: "cov bs \<subseteq> {0..<a}"
    using range_chain_cov[OF bs(4)] unfolding a_def by auto
  have a_le: "a \<le> k" "nat (m s) - 1 \<le> a"
    using bs(1,2) unfolding a_def by linarith+
  have res': "results (loop x_data y_data xy_frame max_flats (Suc k)) = map (rows xy_frame) bs'"
  proof (cases "1 < int (Suc k) - max_flats - m s")
    case True
    have "slice xy_frame (m s) (int (Suc k) - max_flats) = rows xy_frame (a, b)"
      unfolding a_def b_def
      using bs(1) mf True k(2) by (intro slice_rows) linarith+
    then show ?thesis
      using res True bs(3) unfolding bs'_def s_def by simp
  next
    case False
    then show ?thesis
      using res bs(3) unfolding bs'_def s_def by simp
  qed
  have ch: "range_chain 0 bs' (Suc k)"
  proof (cases "1 < int (Suc k) - max_flats - m s")
    case True
    then have ab: "a < b" "b \<le> Suc k"
      using bs(1) mf unfolding a_def b_def by linarith+
    show ?thesis
      using range_chain_snoc[OF bs(4) a_le(2) ab] True unfolding bs'_def by simp
  next
    case False
    then show ?thesis
      using range_chain_widen[OF bs(4), of "Suc k"] a_le unfolding bs'_def by simp
  qed
  have below: "settled x_data y_data xy_frame max_flats bs' a"
    using bs(5) settled_snoc[OF bs(5), of a b] unfolding bs'_def a_def by simp
  have tail: "\<forall>i. a \<le> i \<and> i < Suc (Suc k) \<and> i \<notin> cov bs' \<longrightarrow>
           stopped_at x_data y_data xy_frame max_flats i \<or>
           in_closed_tail x_data y_data xy_frame max_flats i"
  proof (intro allI impI)
    fix i assume i: "a \<le> i \<and> i < Suc (Suc k) \<and> i \<notin> cov bs'"
    show "stopped_at x_data y_data xy_frame max_flats i \<or>
          in_closed_tail x_data y_data xy_frame max_flats i"
    proof (cases "i = Suc k")
      case True
      then have "stopped_at x_data y_data xy_frame max_flats i"
        unfolding stopped_at_def using rec(2) here by simp
      then show ?thesis ..
    next
      case False
      then have ik: "i < Suc k" using i by simp
      have "m s \<le> int i"
        using i bs(1) unfolding a_def by linarith
      then have start: "m (loop x_data y_data xy_frame max_flats (Suc k - 1)) \<le> int i"
        unfolding s_def by simp
      have size: "int (Suc k) - max_flats -
            m (loop x_data y_data xy_frame max_flats (Suc k - 1)) \<le> 1 \<or>
          int (Suc k) - max_flats \<le> int i"
      proof (cases "1 < int (Suc k) - max_flats - m s")
        case True
        then have "i \<notin> {a..<b}"
          using i unfolding bs'_def by (simp add: cov_snoc)
        then have "b \<le> i" using i by simp
        then show ?thesis
          unfolding b_def by linarith
      next
        case False
        then show ?thesis unfolding s_def by simp
      qed
      have "in_closed_tail x_data y_data xy_frame max_flats i"
        by (rule in_closed_tailI[OF ik k(1) closes start size])
      then show ?thesis ..
    qed
  qed
  have "settled x_data y_data xy_frame max_flats bs' (Suc (Suc k))"
    by (rule settled_extend[OF below tail])
  then show ?thesis
    using bs(1,2) res' ch rec(2) same unfolding s_def
    by (intro scan_invI[where bs = bs']) simp_all
qed

lemma scan_inv_loop:
  assumes len: "length y_data = length x_data" and fr: "length xy_frame = length x_data"
    and mf: "1 \<le> max_flats" and k: "k < length x_data"
  shows "scan_inv x_data y_data xy_frame max_flats k"
  using k
proof (induction k)
  case 0
  show ?case by (rule scan_inv_init)
next
  case (Suc k)
  define s where "s = loop x_data y_data xy_frame max_flats k"
  have IH: "scan_inv x_data y_data xy_frame max_flats k"
    using Suc by simp
  show ?case
  proof (cases "aligned_at x_data y_data (Suc k)")
    case False
    then have eq: "loop x_data y_data xy_frame max_flats (Suc k) = s"
      using step_skip[OF Suc.prems len] unfolding s_def by simp
    show ?thesis
    proof (cases "recording s")
      case True
      then show ?thesis
        using eq unfolding s_def by (intro scan_inv_keep[OF IH]) simp_all
    next
      case rec: False
      then show ?thesis
        using eq False unfolding s_def by (intro scan_inv_stopped[OF IH]) simp_all
    qed
  next
    case al: True
    show ?thesis
    proof (cases "flat_at x_data y_data (Suc k)")
      case False
      have eq: "loop x_data y_data xy_frame max_flats (Suc k) =
          (if recording s then s else s\<lparr>flat := 0, m := int (Suc k), recording := True\<rparr>)"
        using step_change[OF Suc.prems len al False, of xy_frame max_flats]
        unfolding s_def by (simp add: Let_def)
      show ?thesis
      proof (cases "recording s")
        case True
        then show ?thesis
          using eq unfolding s_def by (intro scan_inv_keep[OF IH]) simp_all
      next
        case rec: False
        then show ?thesis
          using eq unfolding s_def by (intro scan_inv_restart[OF IH]) (simp_all del: of_nat_Suc)
      qed
    next
      case fl: True
      have eq: "loop x_data y_data xy_frame max_flats (Suc k) =
         (if \<not> recording s then s\<lparr>flat := flat s + 1\<rparr>
          else if max_flats \<le> flat s + 1 then
            (if 1 < int (Suc k) - max_flats - m s
             then s\<lparr>flat := flat s + 1,
                    results := results s @ [slice xy_frame (m s) (int (Suc k) - max_flats)],
                    recording := False\<rparr>
             else s\<lparr>flat := flat s + 1, recording := False\<rparr>)
          else s\<lparr>flat := flat s + 1\<rparr>)"
        using step_flat[OF Suc.prems len al fl, of xy_frame max_flats]
        unfolding s_def by (simp add: Let_def)
      show ?thesis
      proof (cases "recording s")
        case rec: False
        then show ?thesis
          using eq fl unfolding s_def by (intro scan_inv_stopped[OF IH]) simp_all
      next
        case rec: True
        show ?thesis
        proof (cases "max_flats \<le> flat s + 1")
          case False
          then show ?thesis
            using eq rec unfolding s_def by (intro scan_inv_keep[OF IH]) simp_all
        next
          case True
          have "Suc k < length xy_frame"
            using Suc.prems fr by simp
          then show ?thesis
            using eq rec True fl mf Suc.prems unfolding s_def
            by (intro scan_inv_close[OF IH]) (simp_all del: of_nat_Suc)
        qed
      qed
    qed
  qed
qed

text \<open>
  A call that returns had two series of the same length with at least two samples. What
  it returns are the rows of a chain of ranges inside the frame, and every index outside
  the ranges is in one of the three places, unless it lies in a span of two samples that
  is still being recorded when the loop ends.
\<close>

lemma find_breaks_Inr:
  assumes "find_breaks x_data y_data max_flats = Inr segs"
  shows "length y_data = length x_data \<and> 2 \<le> length x_data"
proof -
  have "x_data \<noteq> []"
    using assms by (auto simp add: find_breaks_def xy_frame_of_def range_py_def init_def)
  moreover have "length y_data = length x_data"
    using assms \<open>x_data \<noteq> []\<close> by (auto simp add: find_breaks_def xy_frame_of_def split: if_splits)
  moreover have "length x_data \<noteq> 1"
    using assms
    by (auto simp add: find_breaks_def xy_frame_of_def range_py_def init_def Let_def
             split: if_splits)
  ultimately show ?thesis
    by (cases x_data) (auto simp add: Suc_le_eq)
qed

lemma built_frame_equal:
  assumes "x_data \<noteq> []" "length y_data = length x_data"
  shows "xy_frame_of x_data y_data = Inr (built_frame x_data y_data)"
    and "length (built_frame x_data y_data) = length x_data"
    and "map idx (built_frame x_data y_data) = [0..<length x_data]"
  using assms by (simp_all add: built_frame_def xy_frame_of_def comp_def map_idI)

lemma find_breaks_chain:
  assumes res: "find_breaks x_data y_data max_flats = Inr segs" and mf: "1 \<le> max_flats"
  shows "\<exists>bs. segs = map (rows (built_frame x_data y_data)) bs \<and>
              range_chain 0 bs (length x_data) \<and>
              (\<forall>i<length x_data.
                 i \<notin> cov bs \<and>
                 \<not> trailing_pair x_data y_data (built_frame x_data y_data) max_flats i \<longrightarrow>
                 stopped_at x_data y_data (built_frame x_data y_data) max_flats i \<or>
                 in_closed_tail x_data y_data (built_frame x_data y_data) max_flats i \<or>
                 trailing_single x_data y_data (built_frame x_data y_data) max_flats i)"
proof -
  define fr where "fr = built_frame x_data y_data"
  define L where "L = length x_data"
  have len: "length y_data = length x_data" and two: "2 \<le> length x_data"
    using find_breaks_Inr[OF res] by simp_all
  then have ne: "x_data \<noteq> []" by auto
  note frame = built_frame_equal[OF ne len, folded fr_def]
  define s where "s = loop x_data y_data fr max_flats (length x_data - 1)"
  have k: "length x_data - 1 < length x_data" "Suc (length x_data - 1) = L"
    using two unfolding L_def by simp_all
  have "scan_inv x_data y_data fr max_flats (length x_data - 1)"
    by (rule scan_inv_loop[OF len frame(2) mf k(1)])
  then obtain bs where bs: "0 \<le> m s" "m s \<le> int (length x_data - 1)"
      "results s = map (rows fr) bs"
      "range_chain 0 bs (if recording s then nat (m s) - 1 else length x_data - 1)"
      "settled x_data y_data fr max_flats bs (if recording s then nat (m s) else L)"
    unfolding k(2)[symmetric] s_def by (rule scan_invE)
  have out: "segs = (if recording s \<and> int (length x_data - 1) - m s > 1
                     then results s @ [slice_from fr (m s)] else results s)"
    using res unfolding find_breaks_loop[OF len two frame(1)] s_def Let_def
    by (simp split: if_splits)
  show ?thesis
  proof (cases "recording s")
    case False
    then have "segs = map (rows fr) bs" "range_chain 0 bs L"
      "settled x_data y_data fr max_flats bs L"
      using out bs range_chain_widen[of 0 bs "length x_data - 1" L] unfolding L_def by simp_all
    then show ?thesis unfolding fr_def L_def settled_def by blast
  next
    case rec: True
    then have ch: "range_chain 0 bs (nat (m s) - 1)"
      and g: "settled x_data y_data fr max_flats bs (nat (m s))"
      using bs by simp_all
    show ?thesis
    proof (cases "int (length x_data - 1) - m s > 1")
      case True
      define a where "a = nat (m s)"
      have a: "a < L" "nat (m s) - 1 \<le> a"
        using True bs(1) unfolding a_def L_def by linarith+
      have "slice_from fr (m s) = rows fr (a, L)"
        unfolding a_def L_def frame(2)[symmetric]
        using bs(1,2) two frame(2) by (intro slice_from_rows) linarith+
      then have seg: "segs = map (rows fr) (bs @ [(a, L)])"
        using out rec True bs(3) by simp
      have ch': "range_chain 0 (bs @ [(a, L)]) L"
        using range_chain_snoc[OF ch a(2) a(1), of L] by simp
      have below: "settled x_data y_data fr max_flats (bs @ [(a, L)]) a"
        using settled_snoc[OF g, of a L] unfolding a_def by simp
      have "\<forall>i. a \<le> i \<and> i < L \<and> i \<notin> cov (bs @ [(a, L)]) \<longrightarrow>
           stopped_at x_data y_data fr max_flats i \<or> in_closed_tail x_data y_data fr max_flats i"
        by (auto simp add: cov_snoc)
      then have "settled x_data y_data fr max_flats (bs @ [(a, L)]) L"
        by (rule settled_extend[OF below])
      with seg ch' show ?thesis unfolding fr_def L_def settled_def by blast
    next
      case False
      then have seg: "segs = map (rows fr) bs"
        using out bs(3) by simp
      have ch': "range_chain 0 bs L"
        using range_chain_widen[OF ch, of L] bs(2) unfolding L_def by linarith
      have "stopped_at x_data y_data fr max_flats i \<or>
            in_closed_tail x_data y_data fr max_flats i \<or>
            trailing_single x_data y_data fr max_flats i"
        if i: "i < length x_data" "i \<notin> cov bs"
          "\<not> trailing_pair x_data y_data fr max_flats i" for i
      proof (cases "i < nat (m s)")
        case True
        with g i(2) show ?thesis unfolding settled_def by blast
      next
        case late: False
        then have "m s \<le> int i" by linarith
        then have "int (length x_data - 1) - m s \<noteq> 1"
          using i(3) rec unfolding trailing_pair_def s_def by simp
        then have "m s = int (length x_data - 1)"
          using False bs(2) by linarith
        then have "Suc i = length x_data" "m s = int i"
          using \<open>m s \<le> int i\<close> i(1) by linarith+
        then have "trailing_single x_data y_data fr max_flats i"
          unfolding trailing_single_def using rec unfolding s_def
          by (metis diff_Suc_1)
        then show ?thesis by simp
      qed
      with seg ch' show ?thesis unfolding fr_def L_def by blast
    qed
  qed
qed

lemma range_chain_bounds: "range_chain lo bs hi \<Longrightarrow> (a, b) \<in> set bs \<Longrightarrow> lo \<le> a \<and> a < b \<and> b \<le> hi"
proof (induction lo bs hi rule: range_chain.induct)
  case (1 lo hi)
  then show ?case by simp
next
  case (2 lo a' b' bs hi)
  then show ?case
    using range_chain_le[of b' bs hi] by auto
qed

lemma range_chain_ordered: "range_chain lo bs hi \<Longrightarrow> sorted_wrt (\<lambda>p q. snd p \<le> fst q) bs"
proof (induction lo bs hi rule: range_chain.induct)
  case (1 lo hi)
  show ?case by simp
next
  case (2 lo a b bs hi)
  then have "\<forall>q\<in>set bs. b \<le> fst q"
    using range_chain_bounds[of b bs hi] by fastforce
  with 2 show ?case by simp
qed

lemma rows_labels:
  assumes "map idx xs = [0..<length xs]" "range_chain 0 bs (length xs)" "p \<in> set bs"
  shows "map idx (rows xs p) = [fst p..<snd p]" "fst p < snd p"
  using range_chain_bounds[OF assms(2), of "fst p" "snd p"] assms(3) rows_idx[OF assms(1), of "fst p" "snd p"]
  by simp_all

lemma labels_cov:
  assumes "map idx xs = [0..<length xs]" "range_chain 0 bs (length xs)"
  shows "set (concat (map (map idx) (map (rows xs) bs))) = cov bs"
proof -
  have "set (map idx (rows xs p)) = {fst p..<snd p}" if "p \<in> set bs" for p
    using rows_labels(1)[OF assms that] by simp
  then show ?thesis
    by (auto simp add: cov_def)
qed

text \<open>
  Claim C10. When \<open>find_breaks\<close> returns with \<open>max_flats \<ge> 1\<close>, no returned segment is
  empty, the index labels of the first rows of the segments are in non-decreasing order,
  and the sets of index labels of any two segments are disjoint.
\<close>

theorem segments_ordered_disjoint:
  assumes "find_breaks x_data y_data max_flats = Inr segs" and "1 \<le> max_flats"
  shows "[] \<notin> set segs \<and>
         sorted (map (\<lambda>seg. idx (hd seg)) segs) \<and>
         (\<forall>i j. i < j \<and> j < length segs \<longrightarrow>
            set (map idx (segs ! i)) \<inter> set (map idx (segs ! j)) = {})"
proof -
  define fr where "fr = built_frame x_data y_data"
  from find_breaks_chain[OF assms] obtain bs
    where segs: "segs = map (rows fr) bs" and ch: "range_chain 0 bs (length x_data)"
    unfolding fr_def by blast
  have len: "length y_data = length x_data" and two: "2 \<le> length x_data"
    using find_breaks_Inr[OF assms(1)] by simp_all
  then have ne: "x_data \<noteq> []" by auto
  note frame = built_frame_equal[OF ne len, folded fr_def]
  have lab: "map idx xs = [0..<length xs]" if "xs = fr" for xs
    using that frame by simp
  have ch': "range_chain 0 bs (length fr)"
    using ch frame(2) by simp
  have labels: "map idx (rows fr p) = [fst p..<snd p]" "fst p < snd p" if "p \<in> set bs" for p
    using rows_labels[OF lab[OF refl] ch' that] by simp_all
  have rows_ne: "rows fr p \<noteq> []" if "p \<in> set bs" for p
  proof -
    have "length (map idx (rows fr p)) = snd p - fst p"
      unfolding labels(1)[OF that] by simp
    then show ?thesis
      using labels(2)[OF that] by auto
  qed
  then have nonempty: "[] \<notin> set segs"
    unfolding segs by (metis (no_types, lifting) imageE list.set_map)
  have start: "idx (hd (rows fr p)) = fst p" if "p \<in> set bs" for p
  proof -
    have "idx (hd (rows fr p)) = hd (map idx (rows fr p))"
      using rows_ne[OF that] by (simp add: hd_map)
    then show ?thesis
      using labels[OF that] by simp
  qed
  have ord: "sorted_wrt (\<lambda>p q. snd p \<le> fst q) bs"
    using ch by (rule range_chain_ordered)
  have "sorted_wrt (\<lambda>p q. fst p \<le> fst q) bs"
  proof (rule sorted_wrt_mono_rel[OF _ ord])
    fix p q assume "p \<in> set bs" "q \<in> set bs" "snd p \<le> fst q"
    then show "fst p \<le> fst q"
      using labels(2)[of p] by simp
  qed
  then have "sorted (map fst bs)"
    by (simp add: sorted_map)
  moreover have "map (\<lambda>seg. idx (hd seg)) segs = map fst bs"
    unfolding segs using start by simp
  ultimately have sorted: "sorted (map (\<lambda>seg. idx (hd seg)) segs)"
    by simp
  have disjoint: "\<forall>i j. i < j \<and> j < length segs \<longrightarrow>
            set (map idx (segs ! i)) \<inter> set (map idx (segs ! j)) = {}"
  proof (intro allI impI)
    fix i j assume ij: "i < j \<and> j < length segs"
    then have i: "i < length bs" and j: "j < length bs"
      unfolding segs by simp_all
    have "snd (bs ! i) \<le> fst (bs ! j)"
      using ord ij i j by (simp add: sorted_wrt_iff_nth_less)
    moreover have "map idx (segs ! i) = [fst (bs ! i)..<snd (bs ! i)]"
      "map idx (segs ! j) = [fst (bs ! j)..<snd (bs ! j)]"
      unfolding segs using labels(1) i j by simp_all
    ultimately show "set (map idx (segs ! i)) \<inter> set (map idx (segs ! j)) = {}"
      by auto
  qed
  from nonempty sorted disjoint show ?thesis by blast
qed

theorem segments_ordered_disjoint_witness:
  "find_breaks (series [0, 1, 2, 2, 3, 4, 5]) (series [0, 1, 2, 2, 3, 4, 5]) 1 =
     Inr [take 2 (built_frame (series [0, 1, 2, 2, 3, 4, 5]) (series [0, 1, 2, 2, 3, 4, 5])),
          drop 4 (built_frame (series [0, 1, 2, 2, 3, 4, 5]) (series [0, 1, 2, 2, 3, 4, 5]))] \<and>
   (1::int) \<le> 1 \<and>
   sorted (map (\<lambda>seg. idx (hd seg))
     [take 2 (built_frame (series [0, 1, 2, 2, 3, 4, 5]) (series [0, 1, 2, 2, 3, 4, 5])),
      drop 4 (built_frame (series [0, 1, 2, 2, 3, 4, 5]) (series [0, 1, 2, 2, 3, 4, 5]))]) \<and>
   set (map idx (take 2 (built_frame (series [0, 1, 2, 2, 3, 4, 5]) (series [0, 1, 2, 2, 3, 4, 5])))) \<inter>
   set (map idx (drop 4 (built_frame (series [0, 1, 2, 2, 3, 4, 5]) (series [0, 1, 2, 2, 3, 4, 5])))) = {}"
proof -
  have res: "find_breaks (series [0, 1, 2, 2, 3, 4, 5]) (series [0, 1, 2, 2, 3, 4, 5]) 1 =
     Inr [take 2 (built_frame (series [0, 1, 2, 2, 3, 4, 5]) (series [0, 1, 2, 2, 3, 4, 5])),
          drop 4 (built_frame (series [0, 1, 2, 2, 3, 4, 5]) (series [0, 1, 2, 2, 3, 4, 5]))]"
    by code_simp
  have mf: "(1::int) \<le> 1"
    by simp
  note all = segments_ordered_disjoint[OF res mf]
  from all have "sorted (map (\<lambda>seg. idx (hd seg))
     [take 2 (built_frame (series [0, 1, 2, 2, 3, 4, 5]) (series [0, 1, 2, 2, 3, 4, 5])),
      drop 4 (built_frame (series [0, 1, 2, 2, 3, 4, 5]) (series [0, 1, 2, 2, 3, 4, 5]))])"
    by blast
  moreover from all[THEN conjunct2, THEN conjunct2, rule_format, of 0 1]
  have "set (map idx (take 2 (built_frame (series [0, 1, 2, 2, 3, 4, 5]) (series [0, 1, 2, 2, 3, 4, 5])))) \<inter>
   set (map idx (drop 4 (built_frame (series [0, 1, 2, 2, 3, 4, 5]) (series [0, 1, 2, 2, 3, 4, 5])))) = {}"
    by simp
  ultimately show ?thesis
    using res mf by blast
qed

text \<open>
  Claim C8, as stated, fails in its second half, in two ways. With \<open>max_flats = 2\<close> the
  series \<open>0, 1, 2, 2, 2, 5, 6, 6, 6\<close> returns only the rows 0 and 1: the span that starts
  at index 5 is closed at index 8 with \<open>size = 1\<close> and dropped. Index 5 is in no returned
  segment, its dates agree, and its reading differs from both neighbours. With the same
  threshold the series \<open>0, 1, 1, 2, 3, 3, 4, 5, 6, 7\<close> is closed at index 5 by the second
  unchanged sample counted since the start, and the stored slice ends at index 3: that
  index is in no returned segment either, with agreeing dates and a reading that differs
  from both neighbours.
\<close>

theorem isolated_sample_counterexample:
  "map_sum id (map (map idx)) (find_breaks (series [0, 1, 2, 2, 2, 5, 6, 6, 6]) (series [0, 1, 2, 2, 2, 5, 6, 6, 6]) 2) = Inr [[0, 1]] \<and>
   aligned_at (series [0, 1, 2, 2, 2, 5, 6, 6, 6]) (series [0, 1, 2, 2, 2, 5, 6, 6, 6]) 5 \<and> \<not> flat_at (series [0, 1, 2, 2, 2, 5, 6, 6, 6]) (series [0, 1, 2, 2, 2, 5, 6, 6, 6]) 5 \<and>
   aligned_at (series [0, 1, 2, 2, 2, 5, 6, 6, 6]) (series [0, 1, 2, 2, 2, 5, 6, 6, 6]) 6 \<and> \<not> flat_at (series [0, 1, 2, 2, 2, 5, 6, 6, 6]) (series [0, 1, 2, 2, 2, 5, 6, 6, 6]) 6 \<and>
   map_sum id (map (map idx)) (find_breaks (series [0, 1, 1, 2, 3, 3, 4, 5, 6, 7]) (series [0, 1, 1, 2, 3, 3, 4, 5, 6, 7]) 2) = Inr [[0, 1, 2], [6, 7, 8, 9]] \<and>
   aligned_at (series [0, 1, 1, 2, 3, 3, 4, 5, 6, 7]) (series [0, 1, 1, 2, 3, 3, 4, 5, 6, 7]) 3 \<and> \<not> flat_at (series [0, 1, 1, 2, 3, 3, 4, 5, 6, 7]) (series [0, 1, 1, 2, 3, 3, 4, 5, 6, 7]) 3 \<and>
   aligned_at (series [0, 1, 1, 2, 3, 3, 4, 5, 6, 7]) (series [0, 1, 1, 2, 3, 3, 4, 5, 6, 7]) 4 \<and> \<not> flat_at (series [0, 1, 1, 2, 3, 3, 4, 5, 6, 7]) (series [0, 1, 1, 2, 3, 3, 4, 5, 6, 7]) 4"
  by code_simp

text \<open>
  Claim C8, amended. When \<open>find_breaks\<close> returns with \<open>max_flats \<ge> 1\<close>, the index
  labels of the returned segments, concatenated, are a subsequence of the indices
  \<open>0, \<dots>, len - 1\<close> of the input. Every index in no returned segment, other than the
  samples of a span of exactly two samples that is still being recorded when the loop
  ends, is in one of three places: recording is stopped after it, and there both readings
  are unchanged or the dates differ; or its span is closed at a later index \<open>n\<close>, and it
  is one of the last \<open>max_flats\<close> samples before \<open>n\<close> or the span keeps at most one row; or
  it is the last index and recording started again there.
\<close>

theorem segments_subsequence:
  assumes "find_breaks x_data y_data max_flats = Inr segs" and "1 \<le> max_flats"
  shows "subseq (concat (map (map idx) segs)) [0..<length x_data] \<and>
         (\<forall>i<length x_data.
            i \<notin> set (concat (map (map idx) segs)) \<and>
            \<not> trailing_pair x_data y_data (built_frame x_data y_data) max_flats i \<longrightarrow>
            stopped_at x_data y_data (built_frame x_data y_data) max_flats i \<or>
            in_closed_tail x_data y_data (built_frame x_data y_data) max_flats i \<or>
            trailing_single x_data y_data (built_frame x_data y_data) max_flats i)"
proof -
  define fr where "fr = built_frame x_data y_data"
  from find_breaks_chain[OF assms] obtain bs
    where segs: "segs = map (rows fr) bs" and ch: "range_chain 0 bs (length x_data)"
      and out: "\<forall>i<length x_data.
                 i \<notin> cov bs \<and> \<not> trailing_pair x_data y_data fr max_flats i \<longrightarrow>
                 stopped_at x_data y_data fr max_flats i \<or>
                 in_closed_tail x_data y_data fr max_flats i \<or>
                 trailing_single x_data y_data fr max_flats i"
    unfolding fr_def by blast
  have len: "length y_data = length x_data" and two: "2 \<le> length x_data"
    using find_breaks_Inr[OF assms(1)] by simp_all
  then have ne: "x_data \<noteq> []" by auto
  note frame = built_frame_equal[OF ne len, folded fr_def]
  have lab: "map idx fr = [0..<length fr]"
    using frame by simp
  have ch': "range_chain 0 bs (length fr)"
    using ch frame(2) by simp
  have "subseq (concat segs) (take (length x_data - 0) (drop 0 fr))"
    unfolding segs by (rule range_chain_subseq[OF ch])
  then have "subseq (concat segs) fr"
    using frame(2) by simp
  then have "subseq (map idx (concat segs)) (map idx fr)"
    by (rule subseq_map)
  then have sub: "subseq (concat (map (map idx) segs)) [0..<length x_data]"
    using frame(3) by (simp add: map_concat)
  have cover: "set (concat (map (map idx) segs)) = cov bs"
    unfolding segs by (rule labels_cov[OF lab ch'])
  show ?thesis
    using sub out unfolding cover fr_def by blast
qed

theorem segments_subsequence_witness:
  "find_breaks (series [0, 1, 2, 2, 2, 5, 6, 6, 6]) (series [0, 1, 2, 2, 2, 5, 6, 6, 6]) 2 =
     Inr [take 2 (built_frame (series [0, 1, 2, 2, 2, 5, 6, 6, 6])
                              (series [0, 1, 2, 2, 2, 5, 6, 6, 6]))] \<and>
   (1::int) \<le> 2 \<and>
   subseq (concat (map (map idx)
             [take 2 (built_frame (series [0, 1, 2, 2, 2, 5, 6, 6, 6])
                                  (series [0, 1, 2, 2, 2, 5, 6, 6, 6]))]))
          [0..<length (series [0, 1, 2, 2, 2, 5, 6, 6, 6])] \<and>
   5 < length (series [0, 1, 2, 2, 2, 5, 6, 6, 6]) \<and>
   5 \<notin> set (concat (map (map idx)
             [take 2 (built_frame (series [0, 1, 2, 2, 2, 5, 6, 6, 6])
                                  (series [0, 1, 2, 2, 2, 5, 6, 6, 6]))])) \<and>
   \<not> trailing_pair (series [0, 1, 2, 2, 2, 5, 6, 6, 6]) (series [0, 1, 2, 2, 2, 5, 6, 6, 6])
       (built_frame (series [0, 1, 2, 2, 2, 5, 6, 6, 6]) (series [0, 1, 2, 2, 2, 5, 6, 6, 6])) 2 5 \<and>
   (stopped_at (series [0, 1, 2, 2, 2, 5, 6, 6, 6]) (series [0, 1, 2, 2, 2, 5, 6, 6, 6])
       (built_frame (series [0, 1, 2, 2, 2, 5, 6, 6, 6]) (series [0, 1, 2, 2, 2, 5, 6, 6, 6])) 2 5 \<or>
    in_closed_tail (series [0, 1, 2, 2, 2, 5, 6, 6, 6]) (series [0, 1, 2, 2, 2, 5, 6, 6, 6])
       (built_frame (series [0, 1, 2, 2, 2, 5, 6, 6, 6]) (series [0, 1, 2, 2, 2, 5, 6, 6, 6])) 2 5 \<or>
    trailing_single (series [0, 1, 2, 2, 2, 5, 6, 6, 6]) (series [0, 1, 2, 2, 2, 5, 6, 6, 6])
       (built_frame (series [0, 1, 2, 2, 2, 5, 6, 6, 6]) (series [0, 1, 2, 2, 2, 5, 6, 6, 6])) 2 5) \<and>
   0 \<in> set (concat (map (map idx)
             [take 2 (built_frame (series [0, 1, 2, 2, 2, 5, 6, 6, 6])
                                  (series [0, 1, 2, 2, 2, 5, 6, 6, 6]))]))"
proof -
  define X where "X = series [0, 1, 2, 2, 2, 5, 6, 6, 6]"
  define F where "F = built_frame X X"
  have res: "find_breaks X X 2 = Inr [take 2 (built_frame X X)]"
    unfolding X_def by code_simp
  have mf: "(1::int) \<le> 2"
    by simp
  have five: "5 < length X" "5 \<notin> set (concat (map (map idx) [take 2 (built_frame X X)]))"
    "\<not> trailing_pair X X (built_frame X X) 2 5"
    unfolding X_def by code_simp+
  have zero: "0 < length X" "\<not> trailing_pair X X (built_frame X X) 2 0"
    "\<not> stopped_at X X (built_frame X X) 2 0" "\<not> in_closed_tail X X (built_frame X X) 2 0"
    "\<not> trailing_single X X (built_frame X X) 2 0"
    unfolding X_def by code_simp+
  note all = segments_subsequence[OF res mf]
  from all have sub: "subseq (concat (map (map idx) [take 2 (built_frame X X)])) [0..<length X]"
    by blast
  from all five have at5: "stopped_at X X (built_frame X X) 2 5 \<or>
      in_closed_tail X X (built_frame X X) 2 5 \<or> trailing_single X X (built_frame X X) 2 5"
    by blast
  from all zero have at0: "0 \<in> set (concat (map (map idx) [take 2 (built_frame X X)]))"
    by blast
  from res mf sub five at5 at0 show ?thesis
    unfolding X_def by blast
qed

text \<open>
  On the series \<open>0, 0, 1, 2\<close> with \<open>max_flats = 1\<close> the loop ends while recording the
  two samples 2 and 3, and nothing is returned. The statement above says nothing about
  these two indices; the indices 0 and 1 are in the second and the first place.
\<close>

lemma trailing_pair_left_out:
  "find_breaks (series [0, 0, 1, 2]) (series [0, 0, 1, 2]) 1 = Inr [] \<and>
   trailing_pair (series [0, 0, 1, 2]) (series [0, 0, 1, 2])
     (built_frame (series [0, 0, 1, 2]) (series [0, 0, 1, 2])) 1 2 \<and>
   trailing_pair (series [0, 0, 1, 2]) (series [0, 0, 1, 2])
     (built_frame (series [0, 0, 1, 2]) (series [0, 0, 1, 2])) 1 3 \<and>
   in_closed_tail (series [0, 0, 1, 2]) (series [0, 0, 1, 2])
     (built_frame (series [0, 0, 1, 2]) (series [0, 0, 1, 2])) 1 0 \<and>
   stopped_at (series [0, 0, 1, 2]) (series [0, 0, 1, 2])
     (built_frame (series [0, 0, 1, 2]) (series [0, 0, 1, 2])) 1 1"
  by code_simp

end
